theory Spec2Isabelle
  imports Complex_Main
begin

section \<open>Python values, errors and containers\<close>

text \<open>
  The two programs are Python scripts. An uncaught exception ends the run, so every
  operation that can raise returns \<open>error + 'a\<close> with \<open>Inl\<close> for the exception.
  A value that is either \<^verbatim>\<open>None\<close> or a \<^verbatim>\<open>str\<close> is a \<open>string option\<close>.
  Floating-point numbers (the vote margin, the focus measure, the probabilities) are
  modelled as reals; counters are natural numbers.
\<close>

datatype error =
  AttributeError | IndexError | KeyError | NameError | ValueError | CvError | SystemExit

text \<open>
  A \<^verbatim>\<open>dict\<close> keeps its keys in insertion order, and \<^verbatim>\<open>max(d, key=...)\<close> depends on
  that order, so a dictionary is an association list with distinct keys.
\<close>

type_synonym 'v pydict = "(string \<times> 'v) list"

definition dict_setitem :: "'v pydict \<Rightarrow> string \<Rightarrow> 'v \<Rightarrow> 'v pydict" where
  \<comment> \<open>\<^verbatim>\<open>d[k] = v\<close>: an existing key keeps its position, a new key goes last.\<close>
  "dict_setitem d k v =
     (if k \<in> set (map fst d)
      then map (\<lambda>(k', v'). if k' = k then (k', v) else (k', v')) d
      else d @ [(k, v)])"

definition dict_get :: "'v pydict \<Rightarrow> string \<Rightarrow> 'v \<Rightarrow> 'v" where
  \<comment> \<open>\<^verbatim>\<open>d.get(k, dflt)\<close>\<close>
  "dict_get d k dflt = (case map_of d k of None \<Rightarrow> dflt | Some v \<Rightarrow> v)"

definition dict_getitem :: "'v pydict \<Rightarrow> string \<Rightarrow> error + 'v" where
  \<comment> \<open>\<^verbatim>\<open>d[k]\<close>\<close>
  "dict_getitem d k = (case map_of d k of None \<Rightarrow> Inl KeyError | Some v \<Rightarrow> Inr v)"

definition zero_counts :: "string list \<Rightarrow> nat pydict" where
  \<comment> \<open>\<^verbatim>\<open>{n: 0 for n in data['names']}\<close>\<close>
  "zero_counts ns = foldl (\<lambda>d n. dict_setitem d n 0) [] ns"

fun max_from :: "('a \<Rightarrow> nat) \<Rightarrow> 'a \<Rightarrow> 'a list \<Rightarrow> 'a" where
  \<comment> \<open>the scan of \<^verbatim>\<open>max\<close>: a later element replaces the best one only when strictly larger\<close>
  "max_from key best [] = best"
| "max_from key best (x # xs) = max_from key (if key best < key x then x else best) xs"

definition py_max :: "('a \<Rightarrow> nat) \<Rightarrow> 'a list \<Rightarrow> error + 'a" where
  \<comment> \<open>\<^verbatim>\<open>max(xs, key=key)\<close>; raises on an empty sequence\<close>
  "py_max key xs = (case xs of [] \<Rightarrow> Inl ValueError | x # r \<Rightarrow> Inr (max_from key x r))"

section \<open>face\_det\_rec.py: the gallery and the vote\<close>

record 'e gallery =
  names :: "string list"
  encodings :: "'e list"

definition COMPARE_FACES_TOLERANCE :: real where "COMPARE_FACES_TOLERANCE = 57 / 100"
definition NAME_THRESHOLD :: real where "NAME_THRESHOLD = 20 / 100"
definition FOCUS_MEASURE_THRESHOLD :: real where "FOCUS_MEASURE_THRESHOLD = 1000"

fun count_names :: "nat pydict \<Rightarrow> string list \<Rightarrow> error + nat pydict" where
  \<comment> \<open>\<^verbatim>\<open>for name in data['names']: name_count[name] += 1\<close>\<close>
  "count_names d [] = Inr d"
| "count_names d (n # ns) =
     (case dict_getitem d n of
        Inl e \<Rightarrow> Inl e
      | Inr c \<Rightarrow> count_names (dict_setitem d n (c + 1)) ns)"

definition name_count_of :: "string list \<Rightarrow> error + nat pydict" where
  "name_count_of ns = count_names (zero_counts ns) ns"

definition compare_faces :: "('e \<Rightarrow> 'e \<Rightarrow> real) \<Rightarrow> 'e list \<Rightarrow> 'e \<Rightarrow> real \<Rightarrow> bool list" where
  \<comment> \<open>The library call \<^verbatim>\<open>face_recognition.compare_faces(known, e, tolerance)\<close>: one boolean
      per gallery entry, true when the distance is at most the tolerance. The distance
      itself is a parameter.\<close>
  "compare_faces face_distance known e tol = map (\<lambda>k. face_distance k e \<le> tol) known"

definition matchedIdxs :: "bool list \<Rightarrow> nat list" where
  \<comment> \<open>\<^verbatim>\<open>[i for (i, b) in enumerate(matches) if b]\<close>\<close>
  "matchedIdxs matches = map fst (filter snd (enumerate 0 matches))"

fun tally :: "string list \<Rightarrow> nat list \<Rightarrow> nat pydict \<Rightarrow> error + nat pydict" where
  \<comment> \<open>\<^verbatim>\<open>for i in matchedIdxs: name = data['names'][i]; counts[name] = counts.get(name, 0) + 1\<close>.
      The loop's assignments to \<^verbatim>\<open>name\<close> are overwritten before \<^verbatim>\<open>name\<close> is read again.\<close>
  "tally ns [] counts = Inr counts"
| "tally ns (i # is) counts =
     (if i < length ns
      then tally ns is (dict_setitem counts (ns ! i) (dict_get counts (ns ! i) 0 + 1))
      else Inl IndexError)"

definition name_thresholds ::
  "real \<Rightarrow> nat pydict \<Rightarrow> nat pydict \<Rightarrow> nat \<Rightarrow> string \<Rightarrow> error + bool list" where
  \<comment> \<open>\<^verbatim>\<open>[max_value > value + NAME_THRESHOLD * name_count[max_name]
         for name, value in counts.items() if name != max_name]\<close>;
      \<^verbatim>\<open>name_count[max_name]\<close> is looked up once per competing label.\<close>
  "name_thresholds margin name_count counts max_value max_name =
     (let others = filter (\<lambda>(name, value). name \<noteq> max_name) counts
      in if others = [] then Inr []
         else case dict_getitem name_count max_name of
                Inl e \<Rightarrow> Inl e
              | Inr pop \<Rightarrow>
                  Inr (map (\<lambda>(name, value). real value + margin * real pop < real max_value)
                         others))"

definition resolve_votes ::
  "real \<Rightarrow> string list \<Rightarrow> nat pydict \<Rightarrow> bool list \<Rightarrow> error + string option" where
  \<comment> \<open>the body of the loop over the encodings, from \<^verbatim>\<open>name = 'Unknown'\<close> on;
      the key of the second \<^verbatim>\<open>max\<close> is \<^verbatim>\<open>counts.get\<close>, applied to keys of \<^verbatim>\<open>counts\<close> only\<close>
  "resolve_votes margin ns name_count matches =
     (if True \<in> set matches then
        case tally ns (matchedIdxs matches) (zero_counts ns) of
          Inl e \<Rightarrow> Inl e
        | Inr counts \<Rightarrow>
           (case py_max id (map snd counts) of
              Inl e \<Rightarrow> Inl e
            | Inr max_value \<Rightarrow>
               (case py_max (\<lambda>k. dict_get counts k 0) (map fst counts) of
                  Inl e \<Rightarrow> Inl e
                | Inr max_name \<Rightarrow>
                   (case name_thresholds margin name_count counts max_value max_name of
                      Inl e \<Rightarrow> Inl e
                    | Inr ts \<Rightarrow> Inr (if list_all id ts then Some max_name else None))))
      else Inr (Some ''Unknown''))"

definition resolve ::
  "('e \<Rightarrow> 'e \<Rightarrow> real) \<Rightarrow> real \<Rightarrow> real \<Rightarrow> 'e gallery \<Rightarrow> nat pydict \<Rightarrow> 'e \<Rightarrow> error + string option" where
  "resolve face_distance tol margin data name_count encoding =
     resolve_votes margin (names data) name_count (compare_faces face_distance (encodings data) encoding tol)"

section \<open>Images, regions of interest and detection boxes\<close>

text \<open>
  Pixel contents never reach the decision logic: an image is the path it was read from
  with its height and width, and a region of interest is a rectangle of rows and columns
  of that image. Everything computed from pixels (face location, focus measure,
  embeddings, class probabilities) is a collaborator, given as a function of the region.
\<close>

record roi =
  roi_src :: string
  roi_top :: nat
  roi_bottom :: nat
  roi_left :: nat
  roi_right :: nat

definition whole_image :: "string \<Rightarrow> nat \<Rightarrow> nat \<Rightarrow> roi" where
  "whole_image path height width =
     \<lparr>roi_src = path, roi_top = 0, roi_bottom = height, roi_left = 0, roi_right = width\<rparr>"

definition roi_rows :: "roi \<Rightarrow> nat" where "roi_rows r = roi_bottom r - roi_top r"
definition roi_cols :: "roi \<Rightarrow> nat" where "roi_cols r = roi_right r - roi_left r"

definition roi_size :: "roi \<Rightarrow> nat" where
  \<comment> \<open>\<^verbatim>\<open>roi.size\<close>: rows times columns times the three colour channels of \<^verbatim>\<open>cv2.imread\<close>\<close>
  "roi_size r = roi_rows r * roi_cols r * 3"

definition slice_index :: "nat \<Rightarrow> int \<Rightarrow> nat" where
  \<comment> \<open>how a slice bound is adjusted to an axis of length \<open>n\<close>: a negative bound counts
      from the end, and the result is clamped to \<open>0..n\<close>\<close>
  "slice_index n i =
     (if i < 0 then (if i + int n < 0 then 0 else nat (i + int n))
      else if int n \<le> i then n else nat i)"

definition py_slice :: "nat \<Rightarrow> int \<Rightarrow> int \<Rightarrow> nat \<times> nat" where
  \<comment> \<open>\<^verbatim>\<open>a:b\<close> on an axis of length \<open>n\<close>: first row and one past the last row; empty
      when the adjusted stop is not after the adjusted start\<close>
  "py_slice n a b = (let s = slice_index n a; e = slice_index n b in (s, max s e))"

definition crop :: "roi \<Rightarrow> int \<Rightarrow> int \<Rightarrow> int \<Rightarrow> int \<Rightarrow> roi" where
  \<comment> \<open>\<^verbatim>\<open>r[a:b, c:d, :]\<close>\<close>
  "crop r a b c d =
     (let (ra, rb) = py_slice (roi_rows r) a b;
          (ca, cb) = py_slice (roi_cols r) c d
      in r\<lparr>roi_top := roi_top r + ra, roi_bottom := roi_top r + rb,
             roi_left := roi_left r + ca, roi_right := roi_left r + cb\<rparr>)"

record box =
  xmin :: int
  ymin :: int
  xmax :: int
  ymax :: int

text \<open>
  A label of the request. The keys \<^verbatim>\<open>face\<close> and \<^verbatim>\<open>faceProba\<close> may be absent (outer
  \<open>None\<close>); a present \<^verbatim>\<open>face\<close> is \<^verbatim>\<open>None\<close> or a string.
\<close>

record label =
  label_name :: string
  label_box :: box
  label_face :: "string option option"
  label_faceProba :: "real option"

record json_obj =
  obj_image :: string
  obj_labels :: "label list"

definition label_roi :: "roi \<Rightarrow> label \<Rightarrow> roi" where
  \<comment> \<open>both scripts: \<^verbatim>\<open>y2 = int(ymin); x1 = int(xmin); y1 = int(ymax); x2 = int(xmax);
      roi = img[y2:y1, x1:x2]\<close>, the coordinates being integers already\<close>
  "label_roi img l =
     (let y2 = ymin (label_box l); x1 = xmin (label_box l);
          y1 = ymax (label_box l); x2 = xmax (label_box l)
      in crop img y2 y1 x1 x2)"

section \<open>face\_det\_rec.py: the loop over images and labels\<close>

type_synonym face_box = "int \<times> int \<times> int \<times> int"

record 'e collab =
  imread :: "string \<Rightarrow> (nat \<times> nat) option"
  face_locations :: "roi \<Rightarrow> face_box list"
  variance_of_laplacian :: "roi \<Rightarrow> real"
  face_encodings :: "roi \<Rightarrow> face_box list \<Rightarrow> 'e list"
  face_distance :: "'e \<Rightarrow> 'e \<Rightarrow> real"

text \<open>
  The script's state between labels: the module-level variable \<^verbatim>\<open>name\<close> (unbound,
  or bound to \<^verbatim>\<open>None\<close> or a string) and the number of calls made to
  \<^verbatim>\<open>face_recognition.face_encodings\<close>.
\<close>

record state =
  name_var :: "string option option"
  encode_calls :: nat

fun encodings_loop ::
  "'e collab \<Rightarrow> 'e gallery \<Rightarrow> nat pydict \<Rightarrow> 'e list \<Rightarrow> string option option
     \<Rightarrow> error + string option option" where
  \<comment> \<open>\<^verbatim>\<open>for encoding in encodings:\<close> each pass assigns \<^verbatim>\<open>name\<close>\<close>
  "encodings_loop env data name_count [] name = Inr name"
| "encodings_loop env data name_count (encoding # rest) name =
     (case resolve (face_distance env) COMPARE_FACES_TOLERANCE NAME_THRESHOLD data name_count
             encoding of
        Inl e \<Rightarrow> Inl e
      | Inr n \<Rightarrow> encodings_loop env data name_count rest (Some n))"

definition identify_face ::
  "'e collab \<Rightarrow> 'e gallery \<Rightarrow> nat pydict \<Rightarrow> roi \<Rightarrow> face_box list \<Rightarrow> roi \<Rightarrow> state
     \<Rightarrow> error + state" where
  \<comment> \<open>from the focus measure to the end of the \<^verbatim>\<open>if fm < FOCUS_MEASURE_THRESHOLD\<close> statement;
      \<^verbatim>\<open>cv2.cvtColor\<close> raises on an empty face crop\<close>
  "identify_face env data name_count rgb box face_roi s =
     (if roi_size face_roi = 0 then Inl CvError
      else let fm = variance_of_laplacian env face_roi
           in if fm < FOCUS_MEASURE_THRESHOLD then Inr (s\<lparr>name_var := Some None\<rparr>)
              else case encodings_loop env data name_count (face_encodings env rgb box)
                          (name_var s) of
                     Inl e \<Rightarrow> Inl e
                   | Inr n \<Rightarrow> Inr \<lparr>name_var = n, encode_calls = encode_calls s + 1\<rparr>)"

definition face_crop :: "roi \<Rightarrow> face_box \<Rightarrow> roi" where
  \<comment> \<open>\<^verbatim>\<open>face_top, face_right, face_bottom, face_left = box[0];
      face_roi = roi[face_top:face_bottom, face_left:face_right, :]\<close>\<close>
  "face_crop r b =
     (case b of (face_top, face_right, face_bottom, face_left) \<Rightarrow>
        crop r face_top face_bottom face_left face_right)"

definition process_label ::
  "'e collab \<Rightarrow> 'e gallery \<Rightarrow> nat pydict \<Rightarrow> roi \<Rightarrow> state \<Rightarrow> label \<Rightarrow> error + state \<times> label" where
  \<comment> \<open>the body of \<^verbatim>\<open>for label in json_obj['labels']\<close>; the last step reads \<^verbatim>\<open>name\<close>,
      which raises when nothing has bound it\<close>
  "process_label env data name_count img s l =
     (if label_name l = ''person'' then
        let r = label_roi img l
        in if roi_size r = 0 then Inr (s, l\<lparr>label_face := Some None\<rparr>)
           else case face_locations env r of
                  [] \<Rightarrow> Inr (s, l\<lparr>label_face := Some None\<rparr>)
                | first # others \<Rightarrow>
                    (case identify_face env data name_count r (first # others)
                            (face_crop r first) s of
                       Inl e \<Rightarrow> Inl e
                     | Inr s' \<Rightarrow>
                        (case name_var s' of
                           None \<Rightarrow> Inl NameError
                         | Some v \<Rightarrow> Inr (s', l\<lparr>label_face := Some v\<rparr>)))
      else Inr (s, l))"

fun labels_loop ::
  "'e collab \<Rightarrow> 'e gallery \<Rightarrow> nat pydict \<Rightarrow> roi \<Rightarrow> state \<Rightarrow> label list
     \<Rightarrow> error + state \<times> label list" where
  "labels_loop env data name_count img s [] = Inr (s, [])"
| "labels_loop env data name_count img s (l # ls) =
     (case process_label env data name_count img s l of
        Inl e \<Rightarrow> Inl e
      | Inr (s', l') \<Rightarrow>
         (case labels_loop env data name_count img s' ls of
            Inl e \<Rightarrow> Inl e
          | Inr (s'', ls') \<Rightarrow> Inr (s'', l' # ls')))"

definition process_image ::
  "'e collab \<Rightarrow> 'e gallery \<Rightarrow> nat pydict \<Rightarrow> state \<Rightarrow> json_obj \<Rightarrow> error + state \<times> json_obj" where
  \<comment> \<open>the body of \<^verbatim>\<open>for obj in objects_detected\<close>: \<^verbatim>\<open>cv2.imread\<close> returns \<^verbatim>\<open>None\<close> for a
      file it cannot read, and \<^verbatim>\<open>img.shape\<close> then raises\<close>
  "process_image env data name_count s obj =
     (case imread env (obj_image obj) of
        None \<Rightarrow> Inl AttributeError
      | Some (height, width) \<Rightarrow>
         (case labels_loop env data name_count (whole_image (obj_image obj) height width) s
                 (obj_labels obj) of
            Inl e \<Rightarrow> Inl e
          | Inr (s', ls) \<Rightarrow> Inr (s', obj\<lparr>obj_labels := ls\<rparr>)))"

fun images_loop ::
  "'e collab \<Rightarrow> 'e gallery \<Rightarrow> nat pydict \<Rightarrow> state \<Rightarrow> json_obj list
     \<Rightarrow> error + state \<times> json_obj list" where
  "images_loop env data name_count s [] = Inr (s, [])"
| "images_loop env data name_count s (obj # objs) =
     (case process_image env data name_count s obj of
        Inl e \<Rightarrow> Inl e
      | Inr (s', obj') \<Rightarrow>
         (case images_loop env data name_count s' objs of
            Inl e \<Rightarrow> Inl e
          | Inr (s'', objs') \<Rightarrow> Inr (s'', obj' # objs')))"

definition initial_state :: "'e gallery \<Rightarrow> state" where
  \<comment> \<open>after \<^verbatim>\<open>for name in data['names']\<close> at module level, \<^verbatim>\<open>name\<close> is the last gallery
      name, or unbound when the gallery is empty\<close>
  "initial_state data =
     \<lparr>name_var = (if names data = [] then None else Some (Some (last (names data)))),
      encode_calls = 0\<rparr>"

definition face_det_rec ::
  "'e collab \<Rightarrow> 'e gallery \<Rightarrow> json_obj list \<Rightarrow> error + json_obj list" where
  \<comment> \<open>the whole script: the arguments are the parsed \<^verbatim>\<open>argv[1:]\<close>, the result is the list
      that is printed\<close>
  "face_det_rec env data objects_detected =
     (if objects_detected = [] then Inl SystemExit
      else case name_count_of (names data) of
             Inl e \<Rightarrow> Inl e
           | Inr name_count \<Rightarrow>
              (case images_loop env data name_count (initial_state data) objects_detected of
                 Inl e \<Rightarrow> Inl e
               | Inr (s, objects_detected_faces) \<Rightarrow> Inr objects_detected_faces))"

section \<open>person\_classifier\_server.py: \<^verbatim>\<open>DetectRPC.detect_faces\<close>\<close>

record config =
  MIN_PROBA :: real
  LABEL_MAP :: "string list"

record classifier =
  cls_imread :: "string \<Rightarrow> (nat \<times> nat) option"
  predict :: "roi \<Rightarrow> real list"

fun argmax_from :: "nat \<Rightarrow> real \<Rightarrow> nat \<Rightarrow> real list \<Rightarrow> nat" where
  \<comment> \<open>the scan of \<^verbatim>\<open>np.argmax\<close>: the first index of the largest value\<close>
  "argmax_from best bv i [] = best"
| "argmax_from best bv i (x # xs) =
     (if bv < x then argmax_from i x (Suc i) xs else argmax_from best bv (Suc i) xs)"

definition argmax :: "real list \<Rightarrow> error + nat" where
  "argmax xs = (case xs of [] \<Rightarrow> Inl ValueError | x # r \<Rightarrow> Inr (argmax_from 0 x 1 r))"

definition classify_label :: "classifier \<Rightarrow> config \<Rightarrow> string \<Rightarrow> label \<Rightarrow> error + label" where
  \<comment> \<open>the body of \<^verbatim>\<open>for label in obj['labels']\<close>; resizing, preprocessing and the
      session run are the collaborator \<^verbatim>\<open>predict\<close>\<close>
  "classify_label env cfg path l =
     (if label_name l = ''person'' then
        case cls_imread env path of
          None \<Rightarrow> Inr (l\<lparr>label_face := Some None\<rparr>)
        | Some (height, width) \<Rightarrow>
           (let r = label_roi (whole_image path height width) l
            in if roi_size r = 0 then Inr (l\<lparr>label_face := Some None\<rparr>)
               else let predictions = predict env r
                    in case argmax predictions of
                         Inl e \<Rightarrow> Inl e
                       | Inr j \<Rightarrow>
                          (let proba = predictions ! j
                           in if j < length (LABEL_MAP cfg)
                              then let person = LABEL_MAP cfg ! j;
                                       name = (if MIN_PROBA cfg \<le> proba then Some person else None)
                                   in Inr (l\<lparr>label_face := Some name,
                                             label_faceProba := Some proba\<rparr>)
                              else Inl IndexError))
      else Inr l)"

fun classify_labels :: "classifier \<Rightarrow> config \<Rightarrow> string \<Rightarrow> label list \<Rightarrow> error + label list" where
  "classify_labels env cfg path [] = Inr []"
| "classify_labels env cfg path (l # ls) =
     (case classify_label env cfg path l of
        Inl e \<Rightarrow> Inl e
      | Inr l' \<Rightarrow>
         (case classify_labels env cfg path ls of
            Inl e \<Rightarrow> Inl e
          | Inr ls' \<Rightarrow> Inr (l' # ls')))"

fun detect_faces :: "classifier \<Rightarrow> config \<Rightarrow> json_obj list \<Rightarrow> error + json_obj list" where
  "detect_faces env cfg [] = Inr []"
| "detect_faces env cfg (obj # objs) =
     (case classify_labels env cfg (obj_image obj) (obj_labels obj) of
        Inl e \<Rightarrow> Inl e
      | Inr ls \<Rightarrow>
         (case detect_faces env cfg objs of
            Inl e \<Rightarrow> Inl e
          | Inr objs' \<Rightarrow> Inr (obj\<lparr>obj_labels := ls\<rparr> # objs')))"

section \<open>The vote in the words of the specification\<close>

text \<open>
  The quantities the specification speaks of, defined on the gallery and the match
  results alone: the votes of a label are the matched gallery entries that carry it, its
  population is \<open>count_list\<close> of the gallery names, and the top label is the first
  gallery label whose votes are the highest.
\<close>

definition votes :: "string list \<Rightarrow> bool list \<Rightarrow> string \<Rightarrow> nat" where
  "votes ns matches L = length (filter (\<lambda>(n, b). b \<and> n = L) (zip ns matches))"

definition top_label :: "string list \<Rightarrow> bool list \<Rightarrow> string" where
  "top_label ns matches =
     hd (filter (\<lambda>L. \<forall>L'\<in>set ns. votes ns matches L' \<le> votes ns matches L) ns)"

definition margin_rule :: "real \<Rightarrow> string list \<Rightarrow> bool list \<Rightarrow> bool" where
  \<comment> \<open>the lead over every other label, scaled by the population of the top label\<close>
  "margin_rule margin ns matches =
     (\<forall>L\<in>set ns. L \<noteq> top_label ns matches \<longrightarrow>
        real (votes ns matches L) + margin * real (count_list ns (top_label ns matches))
        < real (votes ns matches (top_label ns matches)))"

definition margin_rule_by_competitor :: "real \<Rightarrow> string list \<Rightarrow> bool list \<Rightarrow> bool" where
  \<comment> \<open>the lead over every other label, scaled by the population of that other label\<close>
  "margin_rule_by_competitor margin ns matches =
     (\<forall>L\<in>set ns. L \<noteq> top_label ns matches \<longrightarrow>
        real (votes ns matches L) + margin * real (count_list ns L)
        < real (votes ns matches (top_label ns matches)))"

section \<open>Concrete galleries and match results\<close>

text \<open>
  Ten gallery entries of Alice followed by two of Bob, and five of each; the match
  results name which entries are within the tolerance of the face.
\<close>

definition names_10_2 :: "string list" where
  "names_10_2 = replicate 10 ''Alice'' @ replicate 2 ''Bob''"

definition count_10_2 :: "nat pydict" where
  "count_10_2 = [(''Alice'', 10), (''Bob'', 2)]"

definition matches_6_1 :: "bool list" where
  "matches_6_1 = replicate 6 True @ replicate 4 False @ [True, False]"

definition matches_3_2 :: "bool list" where
  "matches_3_2 = replicate 3 True @ replicate 7 False @ [True, True]"

definition names_5_5 :: "string list" where
  "names_5_5 = replicate 5 ''Alice'' @ replicate 5 ''Bob''"

definition count_5_5 :: "nat pydict" where
  "count_5_5 = [(''Alice'', 5), (''Bob'', 5)]"

definition matches_3_3 :: "bool list" where
  "matches_3_3 = replicate 3 True @ replicate 2 False @ replicate 3 True @ replicate 2 False"

section \<open>A concrete run of each script\<close>

text \<open>
  A gallery of one-dimensional embeddings under the distance \<open>\<bar>a - b\<bar>\<close>, and
  collaborators that find two faces in every region, take the top edge of a face as its
  embedding, and score sharpness by the file name. Every file but \<^verbatim>\<open>missing.jpg\<close> is a
  readable image of 100 by 100 pixels.
\<close>

definition demo_gallery :: "real gallery" where
  "demo_gallery = \<lparr>names = [''Alice'', ''Alice'', ''Bob''], encodings = [5, 52 / 10, 301 / 10]\<rparr>"

definition demo_count :: "nat pydict" where
  "demo_count = [(''Alice'', 2), (''Bob'', 1)]"

definition demo_env :: "real collab" where
  "demo_env =
     \<lparr>imread = (\<lambda>p. if p = ''missing.jpg'' then None else Some (100, 100)),
      face_locations = (\<lambda>r. [(5, 25, 25, 5), (30, 45, 45, 30)]),
      variance_of_laplacian = (\<lambda>r. if roi_src r = ''blurry.jpg'' then 800 else 1500),
      face_encodings = (\<lambda>r boxes. map (\<lambda>(t, rt, b, lf). real_of_int t) boxes),
      face_distance = (\<lambda>a b. \<bar>a - b\<bar>)\<rparr>"


definition person_label :: label where
  "person_label =
     \<lparr>label_name = ''person'', label_box = \<lparr>xmin = 10, ymin = 10, xmax = 60, ymax = 60\<rparr>,
      label_face = None, label_faceProba = None\<rparr>"

definition outside_label :: label where
  \<comment> \<open>a box to the left of the image: both x coordinates are negative\<close>
  "outside_label =
     \<lparr>label_name = ''person'', label_box = \<lparr>xmin = - 50, ymin = 10, xmax = - 10, ymax = 50\<rparr>,
      label_face = None, label_faceProba = None\<rparr>"

definition degenerate_label :: label where
  \<comment> \<open>a box of no width\<close>
  "degenerate_label =
     \<lparr>label_name = ''person'', label_box = \<lparr>xmin = 20, ymin = 10, xmax = 20, ymax = 60\<rparr>,
      label_face = None, label_faceProba = None\<rparr>"

definition request :: "string \<Rightarrow> label \<Rightarrow> json_obj" where
  "request path l = \<lparr>obj_image = path, obj_labels = [l]\<rparr>"

definition demo_classifier :: classifier where
  "demo_classifier =
     \<lparr>cls_imread = (\<lambda>p. if p = ''missing.jpg'' then None else Some (100, 100)),
      predict = (\<lambda>r. if roi_src r = ''unsure.jpg'' then [42 / 100, 30 / 100, 28 / 100]
                       else [5 / 100, 90 / 100, 5 / 100])\<rparr>"

definition demo_config :: config where
  "demo_config = \<lparr>MIN_PROBA = 1 / 2, LABEL_MAP = [''Alice'', ''Bob'', ''Carol'']\<rparr>"

section \<open>Properties of the dictionaries and of the vote\<close>

lemma keys_dict_setitem:
  "map fst (dict_setitem d k v) = (if k \<in> set (map fst d) then map fst d else map fst d @ [k])"
  by (induction d) (auto simp: dict_setitem_def split: prod.splits)

lemma map_of_overwrite:
  "map_of (map (\<lambda>(k', v'). if k' = k then (k', v) else (k', v')) d) x =
     (if x = k then (if k \<in> set (map fst d) then Some v else None) else map_of d x)"
  by (induction d) (force split: if_splits)+

lemma map_of_dict_setitem:
  "map_of (dict_setitem d k v) x = (if x = k then Some v else map_of d x)"
proof (cases "k \<in> set (map fst d)")
  case True
  then show ?thesis by (simp add: dict_setitem_def map_of_overwrite)
next
  case False
  then have "map_of d k = None" by (simp add: map_of_eq_None_iff)
  then show ?thesis
    using False by (auto simp: dict_setitem_def map_add_def split: option.splits)
qed

lemma distinct_dict_setitem:
  "distinct (map fst d) \<Longrightarrow> distinct (map fst (dict_setitem d k v))"
  by (simp add: keys_dict_setitem)

lemma zero_counts_snoc: "zero_counts (ns @ [n]) = dict_setitem (zero_counts ns) n 0"
  by (simp add: zero_counts_def)

lemma zero_counts_props:
  "set (map fst (zero_counts ns)) = set ns \<and> distinct (map fst (zero_counts ns)) \<and>
   (\<forall>L\<in>set ns. map_of (zero_counts ns) L = Some 0)"
proof (induction ns rule: rev_induct)
  case Nil
  then show ?case by (simp add: zero_counts_def)
next
  case (snoc n ns)
  then show ?case
    by (auto simp: zero_counts_snoc keys_dict_setitem map_of_dict_setitem)
qed

lemma count_names_props:
  "set ns \<subseteq> set (map fst d) \<Longrightarrow>
   \<exists>d'. count_names d ns = Inr d' \<and> map fst d' = map fst d \<and>
        (\<forall>L. map_of d' L = map_option (\<lambda>c. c + count_list ns L) (map_of d L))"
proof (induction ns arbitrary: d)
  case Nil
  then show ?case by (simp add: option.map_ident)
next
  case (Cons n ns)
  from Cons.prems obtain c where c: "map_of d n = Some c"
    by (cases "map_of d n") (auto simp: map_of_eq_None_iff)
  let ?d = "dict_setitem d n (c + 1)"
  have keys: "map fst ?d = map fst d"
    using Cons.prems by (simp add: keys_dict_setitem)
  with Cons.prems have "set ns \<subseteq> set (map fst ?d)" by simp
  from Cons.IH [OF this] obtain d' where d':
    "count_names ?d ns = Inr d'" "map fst d' = map fst ?d"
    "\<forall>L. map_of d' L = map_option (\<lambda>c. c + count_list ns L) (map_of ?d L)"
    by blast
  have "count_names d (n # ns) = Inr d'"
    using c d'(1) by (simp add: dict_getitem_def)
  moreover have "map fst d' = map fst d" using d'(2) keys by simp
  moreover have "map_of d' L = map_option (\<lambda>c. c + count_list (n # ns) L) (map_of d L)" for L
    using d'(3) c by (cases "map_of d L") (auto simp: map_of_dict_setitem)
  ultimately show ?case by blast
qed

lemma name_count_of_props:
  "\<exists>nc. name_count_of ns = Inr nc \<and> (\<forall>L\<in>set ns. map_of nc L = Some (count_list ns L))"
proof -
  have "set ns \<subseteq> set (map fst (zero_counts ns))" using zero_counts_props by simp
  from count_names_props [OF this] obtain d' where
    "count_names (zero_counts ns) ns = Inr d'"
    "\<forall>L. map_of d' L = map_option (\<lambda>c. c + count_list ns L) (map_of (zero_counts ns) L)"
    by blast
  then show ?thesis
    using zero_counts_props [of ns] by (auto simp: name_count_of_def)
qed


lemma votes_Nil [simp]: "votes ns [] L = 0" "votes [] ms L = 0"
  by (simp_all add: votes_def)

lemma votes_Cons:
  "votes (n # ns) (m # ms) L = (if m \<and> n = L then 1 else 0) + votes ns ms L"
  by (simp add: votes_def)

lemma tally_enumerate:
  "k + length ms \<le> length ns \<Longrightarrow> set ns \<subseteq> set (map fst c) \<Longrightarrow>
   \<exists>c'. tally ns (map fst (filter snd (enumerate k ms))) c = Inr c' \<and>
        map fst c' = map fst c \<and>
        (\<forall>L. map_of c' L = map_option (\<lambda>v. v + votes (drop k ns) ms L) (map_of c L))"
proof (induction ms arbitrary: k c)
  case Nil
  then show ?case by (simp add: option.map_ident)
next
  case (Cons m ms)
  from Cons.prems have k: "k < length ns" by simp
  then have dr: "drop k ns = ns ! k # drop (Suc k) ns"
    by (simp add: Cons_nth_drop_Suc)
  show ?case
  proof (cases m)
    case False
    from Cons.prems have "Suc k + length ms \<le> length ns" by simp
    from Cons.IH [OF this Cons.prems(2)] show ?thesis
      using False by (simp add: dr votes_Cons)
  next
    case True
    from k Cons.prems(2) have key: "ns ! k \<in> set (map fst c)"
      using nth_mem by blast
    then obtain v where v: "map_of c (ns ! k) = Some v"
      by (cases "map_of c (ns ! k)") (auto simp: map_of_eq_None_iff)
    let ?c = "dict_setitem c (ns ! k) (dict_get c (ns ! k) 0 + 1)"
    have keys: "map fst ?c = map fst c"
      using key by (simp add: keys_dict_setitem)
    from Cons.prems have "Suc k + length ms \<le> length ns" by simp
    moreover have "set ns \<subseteq> set (map fst ?c)" using keys Cons.prems(2) by simp
    ultimately obtain c' where c':
      "tally ns (map fst (filter snd (enumerate (Suc k) ms))) ?c = Inr c'"
      "map fst c' = map fst ?c"
      "\<forall>L. map_of c' L = map_option (\<lambda>v. v + votes (drop (Suc k) ns) ms L) (map_of ?c L)"
      using Cons.IH by blast
    have "tally ns (map fst (filter snd (enumerate k (m # ms)))) c = Inr c'"
      using True k c'(1) by simp
    moreover have "map fst c' = map fst c" using c'(2) keys by simp
    moreover have
      "map_of c' L = map_option (\<lambda>v. v + votes (drop k ns) (m # ms) L) (map_of c L)" for L
      using c'(3) v True
      by (cases "map_of c L") (auto simp: map_of_dict_setitem dr votes_Cons dict_get_def)
    ultimately show ?thesis by blast
  qed
qed

lemma tally_matched:
  assumes "length matches \<le> length ns"
  shows "\<exists>counts. tally ns (matchedIdxs matches) (zero_counts ns) = Inr counts \<and>
           map fst counts = map fst (zero_counts ns) \<and>
           (\<forall>L\<in>set ns. map_of counts L = Some (votes ns matches L))"
proof -
  have "0 + length matches \<le> length ns" using assms by simp
  moreover have "set ns \<subseteq> set (map fst (zero_counts ns))"
    using zero_counts_props by simp
  ultimately obtain c' where
    "tally ns (map fst (filter snd (enumerate 0 matches))) (zero_counts ns) = Inr c'"
    "map fst c' = map fst (zero_counts ns)"
    "\<forall>L. map_of c' L =
        map_option (\<lambda>v. v + votes (drop 0 ns) matches L) (map_of (zero_counts ns) L)"
    using tally_enumerate by blast
  then show ?thesis
    using zero_counts_props [of ns] by (auto simp: matchedIdxs_def)
qed

lemma max_from_mem: "max_from key b xs \<in> set (b # xs)"
  by (induction xs arbitrary: b) auto

lemma max_from_ge: "\<forall>x\<in>set (b # xs). key x \<le> key (max_from key b xs)"
proof (induction xs arbitrary: b)
  case Nil
  then show ?case by simp
next
  case (Cons y ys)
  let ?b = "if key b < key y then y else b"
  have IH: "\<forall>x\<in>set (?b # ys). key x \<le> key (max_from key ?b ys)"
    using Cons.IH by blast
  then have top: "key ?b \<le> key (max_from key ?b ys)" by simp
  have "key b \<le> key ?b" "key y \<le> key ?b" by auto
  with top have "key b \<le> key (max_from key ?b ys)" "key y \<le> key (max_from key ?b ys)"
    by (meson order_trans)+
  with IH show ?case by simp
qed

lemma py_max_props:
  assumes "xs \<noteq> []"
  shows "\<exists>m. py_max key xs = Inr m \<and> m \<in> set xs \<and> (\<forall>x\<in>set xs. key x \<le> key m)"
proof (cases xs)
  case Nil
  then show ?thesis using assms by simp
next
  case (Cons b r)
  have "max_from key b r \<in> set xs" using max_from_mem Cons by metis
  moreover have "\<forall>x\<in>set xs. key x \<le> key (max_from key b r)"
    using max_from_ge Cons by metis
  ultimately show ?thesis using Cons by (simp add: py_max_def)
qed


lemma max_from_first:
  "max_from key b xs = hd (filter (\<lambda>x. \<forall>y\<in>set (b # xs). key y \<le> key x) (b # xs))"
proof (induction xs arbitrary: b)
  case Nil
  then show ?case by simp
next
  case (Cons y ys)
  define P where "P = (\<lambda>x. \<forall>z\<in>set (b # y # ys). key z \<le> key x)"
  show ?case
  proof (cases "key b < key y")
    case True
    have "P = (\<lambda>x. \<forall>z\<in>set (y # ys). key z \<le> key x)"
      using True by (auto simp: P_def fun_eq_iff)
    with Cons.IH [of y] have "max_from key y ys = hd (filter P (y # ys))" by simp
    moreover have "\<not> P b" using True by (auto simp: P_def)
    ultimately have "max_from key b (y # ys) = hd (filter P (b # y # ys))"
      using True by simp
    then show ?thesis by (simp only: P_def)
  next
    case False
    have "P = (\<lambda>x. \<forall>z\<in>set (b # ys). key z \<le> key x)"
      using False by (auto simp: P_def fun_eq_iff)
    with Cons.IH [of b] have IH: "max_from key b ys = hd (filter P (b # ys))" by simp
    have "P y \<Longrightarrow> P b" using False by (auto simp: P_def)
    then have "hd (filter P (b # y # ys)) = hd (filter P (b # ys))" by auto
    with IH have "max_from key b (y # ys) = hd (filter P (b # y # ys))"
      using False by simp
    then show ?thesis by (simp only: P_def)
  qed
qed

lemma py_max_first:
  "xs \<noteq> [] \<Longrightarrow> py_max key xs = Inr (hd (filter (\<lambda>x. \<forall>y\<in>set xs. key y \<le> key x) xs))"
  by (cases xs) (simp_all add: py_max_def max_from_first del: filter.simps)

lemma hd_filter_keys:
  "hd (filter P (map fst (zero_counts ns))) = hd (filter P ns)"
proof (induction ns rule: rev_induct)
  case Nil
  then show ?case by (simp add: zero_counts_def)
next
  case (snoc n ns)
  have sets: "set (map fst (zero_counts ns)) = set ns" using zero_counts_props by blast
  then have emp: "filter P (map fst (zero_counts ns)) = [] \<longleftrightarrow> filter P ns = []"
    by (simp add: filter_empty_conv)
  show ?case
  proof (cases "filter P ns = []")
    case False
    then show ?thesis
      using snoc emp by (simp add: zero_counts_snoc keys_dict_setitem)
  next
    case True
    then have "n \<in> set ns \<Longrightarrow> \<not> P n" by (simp add: filter_empty_conv)
    then show ?thesis
      using True emp sets by (auto simp: zero_counts_snoc keys_dict_setitem)
  qed
qed

lemma name_thresholds_all:
  assumes "map_of nc w = Some pop"
  shows "\<exists>ts. name_thresholds margin nc counts mv w = Inr ts \<and>
           (list_all id ts \<longleftrightarrow>
              (\<forall>(L, v)\<in>set counts. L \<noteq> w \<longrightarrow> real v + margin * real pop < real mv))"
  using assms
  by (auto simp: name_thresholds_def Let_def dict_getitem_def list_all_iff filter_empty_conv)


lemma top_label_props:
  assumes "ns \<noteq> []"
  shows "top_label ns matches \<in> set ns"
    and "\<forall>L\<in>set ns. votes ns matches L \<le> votes ns matches (top_label ns matches)"
proof -
  let ?P = "\<lambda>L. \<forall>L'\<in>set ns. votes ns matches L' \<le> votes ns matches L"
  obtain m where m: "py_max (votes ns matches) ns = Inr m" "m \<in> set ns" "?P m"
    using py_max_props [OF assms] by blast
  then have "filter ?P ns \<noteq> []" by (auto simp: filter_empty_conv)
  then have "hd (filter ?P ns) \<in> set (filter ?P ns)" by (rule hd_in_set)
  then show "top_label ns matches \<in> set ns"
    and "\<forall>L\<in>set ns. votes ns matches L \<le> votes ns matches (top_label ns matches)"
    by (auto simp: top_label_def)
qed

lemma resolve_votes_char:
  assumes "True \<in> set matches" and "length matches \<le> length ns"
    and "name_count_of ns = Inr nc"
  shows "resolve_votes margin ns nc matches =
           Inr (if \<forall>L\<in>set ns. L \<noteq> top_label ns matches \<longrightarrow>
                     real (votes ns matches L)
                       + margin * real (count_list ns (top_label ns matches))
                     < real (votes ns matches (top_label ns matches))
                then Some (top_label ns matches) else None)"
proof -
  let ?w = "top_label ns matches"
  define K where "K = map fst (zero_counts ns)"
  from assms(1,2) have ne: "ns \<noteq> []" by auto
  have Kset: "set K = set ns" and Kdist: "distinct K"
    unfolding K_def using zero_counts_props by blast+
  obtain counts where counts:
    "tally ns (matchedIdxs matches) (zero_counts ns) = Inr counts"
    "map fst counts = K"
    "\<forall>L\<in>set ns. map_of counts L = Some (votes ns matches L)"
    unfolding K_def using tally_matched [OF assms(2)] by blast
  have pairs: "(L, v) \<in> set counts \<longleftrightarrow> L \<in> set ns \<and> v = votes ns matches L" for L v
  proof
    assume "(L, v) \<in> set counts"
    then have "L \<in> set (map fst counts)" by force
    then have "L \<in> set ns" using counts(2) Kset by simp
    moreover have "distinct (map fst counts)" using counts(2) Kdist by simp
    then have "map_of counts L = Some v"
      using \<open>(L, v) \<in> set counts\<close> by (rule map_of_is_SomeI)
    ultimately have "L \<in> set ns" "map_of counts L = Some v" by blast+
    then show "L \<in> set ns \<and> v = votes ns matches L" using counts(3) by simp
  next
    assume "L \<in> set ns \<and> v = votes ns matches L"
    then have "map_of counts L = Some v" using counts(3) by simp
    then show "(L, v) \<in> set counts" by (rule map_of_SomeD)
  qed
  have key: "dict_get counts L 0 = votes ns matches L" if "L \<in> set ns" for L
    using that counts(3) by (simp add: dict_get_def)
  have w: "?w \<in> set ns" "\<forall>L\<in>set ns. votes ns matches L \<le> votes ns matches ?w"
    using top_label_props [OF ne] by blast+
  have Kne: "K \<noteq> []" using Kset ne by auto
  have "filter (\<lambda>x. \<forall>y\<in>set K. dict_get counts y 0 \<le> dict_get counts x 0) K =
        filter (\<lambda>L. \<forall>L'\<in>set ns. votes ns matches L' \<le> votes ns matches L) K"
    by (rule filter_cong) (auto simp: Kset key)
  then have max_name:
    "py_max (\<lambda>k. dict_get counts k 0) (map fst counts) = Inr ?w"
    using py_max_first [OF Kne, of "\<lambda>k. dict_get counts k 0"]
    by (simp add: counts(2) hd_filter_keys [of _ ns, folded K_def] top_label_def)
  have "map snd counts \<noteq> []" using Kne counts(2) by auto
  then obtain mv where mv: "py_max id (map snd counts) = Inr mv"
    "mv \<in> set (map snd counts)" "\<forall>x\<in>set (map snd counts). x \<le> mv"
    using py_max_props [of "map snd counts" id] by auto
  from mv(2) obtain L where "(L, mv) \<in> set counts" by auto
  then have "mv \<le> votes ns matches ?w" using pairs w(2) by auto
  moreover have "(?w, votes ns matches ?w) \<in> set counts" using pairs w(1) by simp
  then have "votes ns matches ?w \<le> mv" using mv(3) by force
  ultimately have mv_eq: "mv = votes ns matches ?w" by simp
  obtain nc' where "name_count_of ns = Inr nc'"
    "\<forall>L\<in>set ns. map_of nc' L = Some (count_list ns L)"
    using name_count_of_props by blast
  with assms(3) w(1) have "map_of nc ?w = Some (count_list ns ?w)" by simp
  from name_thresholds_all [OF this] obtain ts where ts:
    "name_thresholds margin nc counts mv ?w = Inr ts"
    "list_all id ts \<longleftrightarrow>
       (\<forall>(L, v)\<in>set counts. L \<noteq> ?w \<longrightarrow>
          real v + margin * real (count_list ns ?w) < real mv)"
    by blast
  have "list_all id ts \<longleftrightarrow>
       (\<forall>L\<in>set ns. L \<noteq> ?w \<longrightarrow>
          real (votes ns matches L) + margin * real (count_list ns ?w)
          < real (votes ns matches ?w))"
    unfolding ts(2) mv_eq using pairs by fastforce
  then show ?thesis
    using assms(1) counts(1) mv(1) max_name ts(1) by (simp add: resolve_votes_def)
qed

lemma resolve_votes_rule:
  assumes "True \<in> set matches" and "length matches \<le> length ns"
    and "name_count_of ns = Inr nc"
  shows "resolve_votes margin ns nc matches =
           Inr (if margin_rule margin ns matches then Some (top_label ns matches) else None)"
  using resolve_votes_char [OF assms] by (simp add: margin_rule_def)

lemma resolve_votes_unknown:
  "True \<notin> set matches \<Longrightarrow> resolve_votes margin ns nc matches = Inr (Some ''Unknown'')"
  by (simp add: resolve_votes_def)

section \<open>The vote-margin rule\<close>

text \<open>
  C1, as the specification states it: with at least one match, the top label is accepted
  exactly when its votes exceed, for every other label, that label's votes plus the
  margin times that other label's gallery population. The script scales the margin by
  the population of the top label instead. With ten entries of Alice and two of Bob,
  three matches of Alice and two of Bob, the lead asked for by the specification is
  there (3 against 2 + 0.2 * 2) and the script answers no decision (3 against
  2 + 0.2 * 10).
\<close>

theorem vote_margin_by_competitor_counterexample:
  "True \<in> set matches_3_2 \<and> name_count_of names_10_2 = Inr count_10_2 \<and>
   top_label names_10_2 matches_3_2 = ''Alice'' \<and>
   margin_rule_by_competitor NAME_THRESHOLD names_10_2 matches_3_2 \<and>
   resolve_votes NAME_THRESHOLD names_10_2 count_10_2 matches_3_2 = Inr None"
  by code_simp

text \<open>
  C1, amended: with at least one match and a gallery whose names cover the match
  results, the top label has the most votes, and it is the outcome exactly when its
  votes exceed, for every other label, that label's votes plus the margin times the
  population of the top label itself; otherwise the outcome is no decision.
\<close>

theorem vote_margin_rule:
  assumes "True \<in> set matches" and "length matches \<le> length ns"
    and "name_count_of ns = Inr nc"
  shows "top_label ns matches \<in> set ns
     \<and> (\<forall>L\<in>set ns. votes ns matches L \<le> votes ns matches (top_label ns matches))
     \<and> (resolve_votes margin ns nc matches = Inr (Some (top_label ns matches))
          \<longleftrightarrow> margin_rule margin ns matches)
     \<and> (resolve_votes margin ns nc matches = Inr None
          \<longleftrightarrow> \<not> margin_rule margin ns matches)"
proof -
  from assms(1,2) have "ns \<noteq> []" by auto
  then show ?thesis
    using top_label_props [of ns matches] resolve_votes_rule [OF assms, of margin] by simp
qed

theorem vote_margin_rule_witness:
  "True \<in> set matches_6_1 \<and> length matches_6_1 \<le> length names_10_2
   \<and> name_count_of names_10_2 = Inr count_10_2
   \<and> top_label names_10_2 matches_6_1 = ''Alice''
   \<and> margin_rule NAME_THRESHOLD names_10_2 matches_6_1
   \<and> resolve_votes NAME_THRESHOLD names_10_2 count_10_2 matches_6_1 = Inr (Some ''Alice'')
   \<and> \<not> margin_rule NAME_THRESHOLD names_10_2 matches_3_2
   \<and> resolve_votes NAME_THRESHOLD names_10_2 count_10_2 matches_3_2 = Inr None"
proof -
  have h1: "True \<in> set matches_6_1" by code_simp
  have h2: "length matches_6_1 \<le> length names_10_2" by code_simp
  have h3: "name_count_of names_10_2 = Inr count_10_2" by code_simp
  have t: "top_label names_10_2 matches_6_1 = ''Alice''" by code_simp
  have r: "margin_rule NAME_THRESHOLD names_10_2 matches_6_1" by code_simp
  have g1: "True \<in> set matches_3_2" by code_simp
  have g2: "length matches_3_2 \<le> length names_10_2" by code_simp
  have n: "\<not> margin_rule NAME_THRESHOLD names_10_2 matches_3_2" by code_simp
  from vote_margin_rule [OF h1 h2 h3, of NAME_THRESHOLD] r t
  have a: "resolve_votes NAME_THRESHOLD names_10_2 count_10_2 matches_6_1 = Inr (Some ''Alice'')"
    by simp
  from vote_margin_rule [OF g1 g2 h3, of NAME_THRESHOLD] n
  have b: "resolve_votes NAME_THRESHOLD names_10_2 count_10_2 matches_3_2 = Inr None"
    by simp
  from h1 h2 h3 t r a n b show ?thesis by blast
qed

section \<open>The margin is antitone\<close>

lemma name_thresholds_unfold:
  "name_thresholds x nc counts mv w =
     (if filter (\<lambda>(name, value). name \<noteq> w) counts = [] then Inr []
      else case dict_getitem nc w of
             Inl e \<Rightarrow> Inl e
           | Inr pop \<Rightarrow>
               Inr (map (\<lambda>(name, value). real value + x * real pop < real mv)
                      (filter (\<lambda>(name, value). name \<noteq> w) counts)))"
  unfolding name_thresholds_def Let_def by (rule refl)

lemma thresholds_weaken:
  assumes "m' \<le> m"
  shows "list_all id (map (\<lambda>(name, value). real value + m * real pop < real mv) others)
     \<Longrightarrow> list_all id (map (\<lambda>(name, value). real value + m' * real (pop::nat) < real (mv::nat))
                      (others :: (string \<times> nat) list))"
proof (induction others)
  case Nil
  then show ?case by simp
next
  case (Cons p ps)
  obtain n v where p: "p = (n, v)" by (cases p)
  have "m' * real pop \<le> m * real pop" using assms by (simp add: mult_right_mono)
  then have "real v + m * real pop < real mv \<Longrightarrow> real v + m' * real pop < real mv"
    by linarith
  with Cons show ?case by (simp add: p)
qed


lemma name_thresholds_antitone:
  assumes "m' \<le> m"
  shows "name_thresholds m nc counts mv w = Inl e \<Longrightarrow>
           name_thresholds m' nc counts mv w = Inl e"
    and "name_thresholds m nc counts mv w = Inr ts \<Longrightarrow>
           \<exists>ts'. name_thresholds m' nc counts mv w = Inr ts' \<and>
                 (list_all id ts \<longrightarrow> list_all id ts')"
proof -
  let ?others = "filter (\<lambda>(name, value). name \<noteq> w) counts"
  show "name_thresholds m nc counts mv w = Inl e \<Longrightarrow>
           name_thresholds m' nc counts mv w = Inl e"
  proof (cases "?others = []")
    case True
    then show "name_thresholds m nc counts mv w = Inl e \<Longrightarrow> ?thesis"
      by (simp add: name_thresholds_unfold)
  next
    case False
    then show "name_thresholds m nc counts mv w = Inl e \<Longrightarrow> ?thesis"
      by (cases "dict_getitem nc w") (simp_all add: name_thresholds_unfold)
  qed
  show "name_thresholds m nc counts mv w = Inr ts \<Longrightarrow>
           \<exists>ts'. name_thresholds m' nc counts mv w = Inr ts' \<and>
                 (list_all id ts \<longrightarrow> list_all id ts')"
  proof (cases "?others = []")
    case True
    then show "name_thresholds m nc counts mv w = Inr ts \<Longrightarrow> ?thesis"
      by (simp add: name_thresholds_unfold)
  next
    case False
    assume r: "name_thresholds m nc counts mv w = Inr ts"
    show ?thesis
    proof (cases "dict_getitem nc w")
      case (Inl e)
      with r False show ?thesis by (simp add: name_thresholds_unfold)
    next
      case (Inr pop)
      with r False have
        ts: "ts = map (\<lambda>(name, value). real value + m * real pop < real mv) ?others"
        by (simp add: name_thresholds_unfold)
      have "name_thresholds m' nc counts mv w =
              Inr (map (\<lambda>(name, value). real value + m' * real pop < real mv) ?others)"
        using False Inr by (simp add: name_thresholds_unfold)
      then show ?thesis
        using thresholds_weaken [OF assms, of pop mv ?others] ts by blast
    qed
  qed
qed


text \<open>
  C8: for a fixed gallery and fixed match results, lowering the margin keeps every
  accepted identity, and raising it either leaves the outcome as it is or turns it into
  no decision; so no decision and \<^verbatim>\<open>'Unknown'\<close> never become an accepted identity.
  The statement holds for every table of populations, since populations are counts.
\<close>

theorem margin_antitone:
  assumes "m' \<le> m"
  shows "(resolve_votes m ns nc matches = Inr (Some L)
            \<longrightarrow> resolve_votes m' ns nc matches = Inr (Some L))
       \<and> (resolve_votes m ns nc matches = resolve_votes m' ns nc matches
            \<or> resolve_votes m ns nc matches = Inr None)"
proof (cases "True \<in> set matches")
  case False
  then show ?thesis by (simp add: resolve_votes_def)
next
  case True
  show ?thesis
  proof (cases "tally ns (matchedIdxs matches) (zero_counts ns)")
    case (Inl e)
    with True show ?thesis by (simp add: resolve_votes_def)
  next
    case counts: (Inr counts)
    show ?thesis
    proof (cases "py_max id (map snd counts)")
      case (Inl e)
      with True counts show ?thesis by (simp add: resolve_votes_def)
    next
      case mv: (Inr mv)
      show ?thesis
      proof (cases "py_max (\<lambda>k. dict_get counts k 0) (map fst counts)")
        case (Inl e)
        with True counts mv show ?thesis by (simp add: resolve_votes_def)
      next
        case w: (Inr w)
        show ?thesis
        proof (cases "name_thresholds m nc counts mv w")
          case (Inl e)
          with name_thresholds_antitone(1) [OF assms this] True counts mv w
          show ?thesis by (simp add: resolve_votes_def)
        next
          case (Inr ts)
          from name_thresholds_antitone(2) [OF assms this] obtain ts' where
            "name_thresholds m' nc counts mv w = Inr ts'" "list_all id ts \<longrightarrow> list_all id ts'"
            by blast
          with Inr True counts mv w show ?thesis by (simp add: resolve_votes_def)
        qed
      qed
    qed
  qed
qed

theorem margin_antitone_witness:
  "NAME_THRESHOLD \<le> (1 / 2 :: real)
   \<and> resolve_votes (1 / 2) names_10_2 count_10_2 matches_6_1 = Inr None
   \<and> resolve_votes NAME_THRESHOLD names_10_2 count_10_2 matches_6_1 = Inr (Some ''Alice'')
   \<and> resolve_votes (1 / 10) names_10_2 count_10_2 matches_6_1 = Inr (Some ''Alice'')"
proof -
  have h: "NAME_THRESHOLD \<le> (1 / 2 :: real)" by (simp add: NAME_THRESHOLD_def)
  have h': "(1 / 10 :: real) \<le> NAME_THRESHOLD" by (simp add: NAME_THRESHOLD_def)
  have a: "resolve_votes NAME_THRESHOLD names_10_2 count_10_2 matches_6_1 = Inr (Some ''Alice'')"
    by code_simp
  have b: "resolve_votes (1 / 2) names_10_2 count_10_2 matches_6_1
             \<noteq> resolve_votes NAME_THRESHOLD names_10_2 count_10_2 matches_6_1"
    by code_simp
  from margin_antitone [OF h, of names_10_2 count_10_2 matches_6_1 "''Alice''"] b
  have c: "resolve_votes (1 / 2) names_10_2 count_10_2 matches_6_1 = Inr None" by blast
  from margin_antitone [OF h', of names_10_2 count_10_2 matches_6_1 "''Alice''"] a
  have d: "resolve_votes (1 / 10) names_10_2 count_10_2 matches_6_1 = Inr (Some ''Alice'')"
    by blast
  from h a c d show ?thesis by blast
qed

section \<open>The scenarios of the specification\<close>

lemma votes_pos_match: "0 < votes ns ms L \<Longrightarrow> True \<in> set ms"
proof -
  assume "0 < votes ns ms L"
  then have "filter (\<lambda>(n, b). b \<and> n = L) (zip ns ms) \<noteq> []"
    by (simp add: votes_def)
  then obtain n b where "(n, b) \<in> set (zip ns ms)" "b"
    by (auto simp: filter_empty_conv)
  then have "(n, True) \<in> set (zip ns ms)" by simp
  then show ?thesis by (rule set_zip_rightD)
qed

lemma two_labels_top:
  assumes "set ns = {a, b}"
  shows "top_label ns ms = a \<or> top_label ns ms = b"
    and "votes ns ms a \<le> votes ns ms (top_label ns ms)"
    and "votes ns ms b \<le> votes ns ms (top_label ns ms)"
proof -
  have ne: "ns \<noteq> []" using assms by auto
  have "top_label ns ms \<in> {a, b}" using top_label_props(1) [OF ne, of ms] assms by simp
  then show "top_label ns ms = a \<or> top_label ns ms = b" by simp
  have "a \<in> set ns" "b \<in> set ns" using assms by simp_all
  then show "votes ns ms a \<le> votes ns ms (top_label ns ms)"
    and "votes ns ms b \<le> votes ns ms (top_label ns ms)"
    using top_label_props(2) [OF ne, of ms] by blast+
qed

lemma two_labels_rule:
  assumes "set ns = {a, b}" and "top_label ns ms = a"
  shows "margin_rule margin ns ms \<longleftrightarrow>
           (b \<noteq> a \<longrightarrow> real (votes ns ms b) + margin * real (count_list ns a) < real (votes ns ms a))"
  unfolding margin_rule_def assms by simp


text \<open>
  C9: with the margin 0.20, in any gallery of ten entries of Alice and two of Bob, a
  face that matches six entries of Alice and one of Bob resolves to Alice; in any
  gallery of five entries of each, a face that matches three of each resolves to no
  decision, whichever label comes first. (The script's threshold against Bob in the
  first gallery is 1 + 0.20 * 10 = 3, the population being that of Alice.)
\<close>

theorem scenario_outcomes:
  assumes "length ms \<le> length ns" and "name_count_of ns = Inr nc"
    and "set ns = {''Alice'', ''Bob''}"
    and "count_list ns ''Alice'' = 10" and "count_list ns ''Bob'' = 2"
    and "votes ns ms ''Alice'' = 6" and "votes ns ms ''Bob'' = 1"
    and "length ms' \<le> length ns'" and "name_count_of ns' = Inr nc'"
    and "set ns' = {''Alice'', ''Bob''}"
    and "count_list ns' ''Alice'' = 5" and "count_list ns' ''Bob'' = 5"
    and "votes ns' ms' ''Alice'' = 3" and "votes ns' ms' ''Bob'' = 3"
  shows "resolve_votes NAME_THRESHOLD ns nc ms = Inr (Some ''Alice'')
       \<and> resolve_votes NAME_THRESHOLD ns' nc' ms' = Inr None"
proof
  have ab: "''Bob'' \<noteq> ''Alice''" by simp
  have m: "True \<in> set ms" using assms(6) votes_pos_match [of ns ms "''Alice''"] by simp
  have "votes ns ms ''Alice'' \<le> votes ns ms (top_label ns ms)"
    by (rule two_labels_top(2) [OF assms(3)])
  then have "top_label ns ms \<noteq> ''Bob''" using assms(6,7) by auto
  with two_labels_top(1) [OF assms(3), of ms] have top: "top_label ns ms = ''Alice''" by blast
  have "real (votes ns ms ''Bob'') + NAME_THRESHOLD * real (count_list ns ''Alice'')
          < real (votes ns ms ''Alice'')"
    by (simp add: assms(4,6,7) NAME_THRESHOLD_def)
  then have "margin_rule NAME_THRESHOLD ns ms"
    using two_labels_rule [OF assms(3) top] by blast
  then show "resolve_votes NAME_THRESHOLD ns nc ms = Inr (Some ''Alice'')"
    using resolve_votes_rule [OF m assms(1,2)] top by simp
next
  have ab: "''Bob'' \<noteq> ''Alice''" by simp
  have sw: "set ns' = {''Bob'', ''Alice''}" using assms(10) by (simp add: insert_commute)
  have m: "True \<in> set ms'" using assms(13) votes_pos_match [of ns' ms' "''Alice''"] by simp
  have nA: "\<not> real (votes ns' ms' ''Bob'') + NAME_THRESHOLD * real (count_list ns' ''Alice'')
          < real (votes ns' ms' ''Alice'')"
    by (simp add: assms(11,13,14) NAME_THRESHOLD_def)
  have nB: "\<not> real (votes ns' ms' ''Alice'') + NAME_THRESHOLD * real (count_list ns' ''Bob'')
          < real (votes ns' ms' ''Bob'')"
    by (simp add: assms(12,13,14) NAME_THRESHOLD_def)
  have "\<not> margin_rule NAME_THRESHOLD ns' ms'"
  proof (cases "top_label ns' ms' = ''Alice''")
    case True
    show ?thesis using two_labels_rule [OF assms(10) True] nA ab by blast
  next
    case False
    with two_labels_top(1) [OF assms(10), of ms'] have t: "top_label ns' ms' = ''Bob''" by blast
    show ?thesis using two_labels_rule [OF sw t] nB ab by blast
  qed
  then show "resolve_votes NAME_THRESHOLD ns' nc' ms' = Inr None"
    using resolve_votes_rule [OF m assms(8,9)] by simp
qed


theorem scenario_outcomes_witness:
  "set names_10_2 = {''Alice'', ''Bob''} \<and> count_list names_10_2 ''Alice'' = 10
   \<and> count_list names_10_2 ''Bob'' = 2
   \<and> votes names_10_2 matches_6_1 ''Alice'' = 6 \<and> votes names_10_2 matches_6_1 ''Bob'' = 1
   \<and> resolve_votes NAME_THRESHOLD names_10_2 count_10_2 matches_6_1 = Inr (Some ''Alice'')
   \<and> set names_5_5 = {''Alice'', ''Bob''} \<and> count_list names_5_5 ''Alice'' = 5
   \<and> count_list names_5_5 ''Bob'' = 5
   \<and> votes names_5_5 matches_3_3 ''Alice'' = 3 \<and> votes names_5_5 matches_3_3 ''Bob'' = 3
   \<and> resolve_votes NAME_THRESHOLD names_5_5 count_5_5 matches_3_3 = Inr None"
proof -
  have a1: "length matches_6_1 \<le> length names_10_2" by code_simp
  have a2: "name_count_of names_10_2 = Inr count_10_2" by code_simp
  have a3: "set names_10_2 = {''Alice'', ''Bob''}" by code_simp
  have a4: "count_list names_10_2 ''Alice'' = 10" by code_simp
  have a5: "count_list names_10_2 ''Bob'' = 2" by code_simp
  have a6: "votes names_10_2 matches_6_1 ''Alice'' = 6" by code_simp
  have a7: "votes names_10_2 matches_6_1 ''Bob'' = 1" by code_simp
  have b1: "length matches_3_3 \<le> length names_5_5" by code_simp
  have b2: "name_count_of names_5_5 = Inr count_5_5" by code_simp
  have b3: "set names_5_5 = {''Alice'', ''Bob''}" by code_simp
  have b4: "count_list names_5_5 ''Alice'' = 5" by code_simp
  have b5: "count_list names_5_5 ''Bob'' = 5" by code_simp
  have b6: "votes names_5_5 matches_3_3 ''Alice'' = 3" by code_simp
  have b7: "votes names_5_5 matches_3_3 ''Bob'' = 3" by code_simp
  from scenario_outcomes [OF a1 a2 a3 a4 a5 a6 a7 b1 b2 b3 b4 b5 b6 b7]
  show ?thesis using a3 a4 a5 a6 a7 b3 b4 b5 b6 b7 by blast
qed

section \<open>No match\<close>

lemma compare_faces_no_match:
  "True \<notin> set (compare_faces fd known e tol) \<longleftrightarrow> (\<forall>k\<in>set known. tol < fd k e)"
  by (auto simp: compare_faces_def not_le)

lemma resolve_total:
  assumes "length (names data) = length (encodings data)"
    and "name_count_of (names data) = Inr nc"
  shows "\<exists>v. resolve fd tol m data nc e = Inr v"
proof (cases "True \<in> set (compare_faces fd (encodings data) e tol)")
  case True
  have "length (compare_faces fd (encodings data) e tol) \<le> length (names data)"
    using assms(1) by (simp add: compare_faces_def)
  from resolve_votes_rule [OF True this assms(2)] show ?thesis
    by (simp add: resolve_def)
next
  case False
  then show ?thesis by (simp add: resolve_def resolve_votes_unknown)
qed

lemma encodings_loop_last:
  assumes "length (names data) = length (encodings data)"
    and "name_count_of (names data) = Inr nc"
  shows "\<exists>v. resolve (face_distance env) COMPARE_FACES_TOLERANCE NAME_THRESHOLD data nc e = Inr v
           \<and> encodings_loop env data nc (es @ [e]) name = Inr (Some v)"
proof (induction es arbitrary: name)
  case Nil
  from resolve_total [OF assms] obtain v where
    "resolve (face_distance env) COMPARE_FACES_TOLERANCE NAME_THRESHOLD data nc e = Inr v"
    by blast
  then show ?case by simp
next
  case (Cons x es)
  from resolve_total [OF assms] obtain v' where
    "resolve (face_distance env) COMPARE_FACES_TOLERANCE NAME_THRESHOLD data nc x = Inr v'"
    by blast
  with Cons.IH [of "Some v'"] show ?case by simp
qed

text \<open>
  C2: for every gallery and every face embedding that reaches the matching step, if no
  gallery entry is within the tolerance of the embedding, the resolver's outcome is the
  string \<^verbatim>\<open>'Unknown'\<close>, not no decision. This holds for an empty gallery too.
\<close>

theorem no_match_is_unknown:
  assumes "\<forall>k\<in>set (encodings data). \<not> fd k e \<le> tol"
  shows "resolve fd tol margin data nc e = Inr (Some ''Unknown'')"
proof -
  have "True \<notin> set (compare_faces fd (encodings data) e tol)"
    using assms by (auto simp: compare_faces_def)
  then show ?thesis by (simp add: resolve_def resolve_votes_unknown)
qed

theorem no_match_is_unknown_witness:
  "\<not> face_distance demo_env 5 100 \<le> COMPARE_FACES_TOLERANCE
   \<and> \<not> face_distance demo_env (52 / 10) 100 \<le> COMPARE_FACES_TOLERANCE
   \<and> \<not> face_distance demo_env (301 / 10) 100 \<le> COMPARE_FACES_TOLERANCE
   \<and> resolve (face_distance demo_env) COMPARE_FACES_TOLERANCE NAME_THRESHOLD
         demo_gallery demo_count 100 = Inr (Some ''Unknown'')"
proof -
  have d: "\<not> face_distance demo_env 5 100 \<le> COMPARE_FACES_TOLERANCE"
    "\<not> face_distance demo_env (52 / 10) 100 \<le> COMPARE_FACES_TOLERANCE"
    "\<not> face_distance demo_env (301 / 10) 100 \<le> COMPARE_FACES_TOLERANCE"
    by (simp_all add: demo_env_def COMPARE_FACES_TOLERANCE_def)
  then have h: "\<forall>k\<in>set (encodings demo_gallery).
                  \<not> face_distance demo_env k 100 \<le> COMPARE_FACES_TOLERANCE"
    by (simp add: demo_gallery_def)
  from no_match_is_unknown
         [of demo_gallery "face_distance demo_env" 100 COMPARE_FACES_TOLERANCE
             NAME_THRESHOLD demo_count, OF h] d
  show ?thesis by blast
qed

section \<open>The blur gate\<close>

lemma process_label_face:
  assumes "label_name l = ''person''" and "roi_size (label_roi img l) \<noteq> 0"
    and "face_locations env (label_roi img l) = b # bs"
    and "roi_size (face_crop (label_roi img l) b) \<noteq> 0"
  shows "process_label env data nc img s l =
     (if variance_of_laplacian env (face_crop (label_roi img l) b) < 1000
      then Inr (s\<lparr>name_var := Some None\<rparr>, l\<lparr>label_face := Some None\<rparr>)
      else case encodings_loop env data nc (face_encodings env (label_roi img l) (b # bs))
                  (name_var s) of
             Inl e \<Rightarrow> Inl e
           | Inr None \<Rightarrow> Inl NameError
           | Inr (Some v) \<Rightarrow>
               Inr (\<lparr>name_var = Some v, encode_calls = encode_calls s + 1\<rparr>,
                    l\<lparr>label_face := Some v\<rparr>))"
  using assms
  by (simp add: process_label_def identify_face_def Let_def FOCUS_MEASURE_THRESHOLD_def
           split: sum.splits option.splits)

text \<open>
  C6: for a person box with a non-empty region in which a face is found, if the focus
  measure of the first face crop is below 1000, the box gets no decision and the call
  counter of the embedding extraction is unchanged; if the measure is 1000 or more, the
  embeddings are extracted (the counter goes up by one) and the box gets what the loop
  over them leaves in \<^verbatim>\<open>name\<close>.
\<close>

theorem blur_gate:
  assumes "label_name l = ''person''" and "roi_size (label_roi img l) \<noteq> 0"
    and "face_locations env (label_roi img l) = b # bs"
    and "roi_size (face_crop (label_roi img l) b) \<noteq> 0"
  shows "(variance_of_laplacian env (face_crop (label_roi img l) b) < 1000 \<longrightarrow>
            process_label env data nc img s l
              = Inr (s\<lparr>name_var := Some None\<rparr>, l\<lparr>label_face := Some None\<rparr>)
            \<and> encode_calls (s\<lparr>name_var := Some None\<rparr>) = encode_calls s)
       \<and> (1000 \<le> variance_of_laplacian env (face_crop (label_roi img l) b) \<longrightarrow>
            process_label env data nc img s l
              = (case encodings_loop env data nc
                        (face_encodings env (label_roi img l) (b # bs)) (name_var s) of
                   Inl e \<Rightarrow> Inl e
                 | Inr None \<Rightarrow> Inl NameError
                 | Inr (Some v) \<Rightarrow>
                     Inr (\<lparr>name_var = Some v, encode_calls = encode_calls s + 1\<rparr>,
                          l\<lparr>label_face := Some v\<rparr>)))"
  using process_label_face [OF assms, of data nc s] by simp

theorem blur_gate_witness:
  "variance_of_laplacian demo_env
      (face_crop (label_roi (whole_image ''blurry.jpg'' 100 100) person_label) (5, 25, 25, 5))
     = 800
   \<and> process_label demo_env demo_gallery demo_count (whole_image ''blurry.jpg'' 100 100)
        (initial_state demo_gallery) person_label
       = Inr (\<lparr>name_var = Some None, encode_calls = 0\<rparr>,
              person_label\<lparr>label_face := Some None\<rparr>)
   \<and> variance_of_laplacian demo_env
      (face_crop (label_roi (whole_image ''sharp.jpg'' 100 100) person_label) (5, 25, 25, 5))
     = 1500
   \<and> process_label demo_env demo_gallery demo_count (whole_image ''sharp.jpg'' 100 100)
        (initial_state demo_gallery) person_label
       = Inr (\<lparr>name_var = Some (Some ''Bob''), encode_calls = 1\<rparr>,
              person_label\<lparr>label_face := Some (Some ''Bob'')\<rparr>)"
proof -
  let ?blurry = "whole_image ''blurry.jpg'' 100 100" and ?sharp = "whole_image ''sharp.jpg'' 100 100"
  let ?b = "(5, 25, 25, 5) :: face_box" and ?bs = "[(30, 45, 45, 30)] :: face_box list"
  have p: "label_name person_label = ''person''" by code_simp
  have b1: "roi_size (label_roi ?blurry person_label) \<noteq> 0" by code_simp
  have b2: "face_locations demo_env (label_roi ?blurry person_label) = ?b # ?bs" by code_simp
  have b3: "roi_size (face_crop (label_roi ?blurry person_label) ?b) \<noteq> 0" by code_simp
  have b4: "variance_of_laplacian demo_env (face_crop (label_roi ?blurry person_label) ?b) = 800"
    by code_simp
  have s1: "roi_size (label_roi ?sharp person_label) \<noteq> 0" by code_simp
  have s2: "face_locations demo_env (label_roi ?sharp person_label) = ?b # ?bs" by code_simp
  have s3: "roi_size (face_crop (label_roi ?sharp person_label) ?b) \<noteq> 0" by code_simp
  have s4: "variance_of_laplacian demo_env (face_crop (label_roi ?sharp person_label) ?b) = 1500"
    by code_simp
  have s5: "encodings_loop demo_env demo_gallery demo_count
              (face_encodings demo_env (label_roi ?sharp person_label) (?b # ?bs))
              (name_var (initial_state demo_gallery)) = Inr (Some (Some ''Bob''))"
    by code_simp
  have i: "initial_state demo_gallery = \<lparr>name_var = Some (Some ''Bob''), encode_calls = 0\<rparr>"
    by code_simp
  from blur_gate [OF p b1 b2 b3, of demo_gallery demo_count "initial_state demo_gallery"] b4
  have blurry: "process_label demo_env demo_gallery demo_count ?blurry
        (initial_state demo_gallery) person_label
       = Inr (\<lparr>name_var = Some None, encode_calls = 0\<rparr>,
              person_label\<lparr>label_face := Some None\<rparr>)"
    by (simp add: i)
  from blur_gate [OF p s1 s2 s3, of demo_gallery demo_count "initial_state demo_gallery"] s4 s5
  have sharp: "process_label demo_env demo_gallery demo_count ?sharp
        (initial_state demo_gallery) person_label
       = Inr (\<lparr>name_var = Some (Some ''Bob''), encode_calls = 1\<rparr>,
              person_label\<lparr>label_face := Some (Some ''Bob'')\<rparr>)"
    by (simp add: i)
  from b4 blurry s4 sharp show ?thesis by blast
qed

section \<open>Several faces in one person box\<close>

text \<open>
  C10: when the face detector returns the faces \<open>b # bs\<close> for a person region, the
  blur gate looks at the crop of the first face \<open>b\<close> only; when that crop passes,
  embeddings are extracted for the whole list \<open>b # bs\<close>, and the face written on the
  box is the resolver's decision for the last embedding returned, each pass of the loop
  overwriting the one before. The gallery is taken with as many names as encodings.
\<close>

theorem last_face_decides:
  assumes "label_name l = ''person''" and "roi_size (label_roi img l) \<noteq> 0"
    and "face_locations env (label_roi img l) = b # bs"
    and "roi_size (face_crop (label_roi img l) b) \<noteq> 0"
    and "length (names data) = length (encodings data)"
    and "name_count_of (names data) = Inr nc"
    and "face_encodings env (label_roi img l) (b # bs) = es @ [e]"
  shows "(variance_of_laplacian env (face_crop (label_roi img l) b) < 1000 \<longrightarrow>
            process_label env data nc img s l
              = Inr (s\<lparr>name_var := Some None\<rparr>, l\<lparr>label_face := Some None\<rparr>))
       \<and> (1000 \<le> variance_of_laplacian env (face_crop (label_roi img l) b) \<longrightarrow>
            (\<exists>v. resolve (face_distance env) COMPARE_FACES_TOLERANCE NAME_THRESHOLD data nc e
                    = Inr v
                \<and> process_label env data nc img s l
                    = Inr (\<lparr>name_var = Some v, encode_calls = encode_calls s + 1\<rparr>,
                           l\<lparr>label_face := Some v\<rparr>)))"
proof -
  obtain v where v:
    "resolve (face_distance env) COMPARE_FACES_TOLERANCE NAME_THRESHOLD data nc e = Inr v"
    "encodings_loop env data nc (es @ [e]) (name_var s) = Inr (Some v)"
    using encodings_loop_last [OF assms(5,6)] by blast
  show ?thesis
    using process_label_face [OF assms(1-4), of data nc s] v by (simp add: assms(7))
qed

theorem last_face_decides_witness:
  "face_locations demo_env (label_roi (whole_image ''sharp.jpg'' 100 100) person_label)
     = [(5, 25, 25, 5), (30, 45, 45, 30)]
   \<and> face_encodings demo_env (label_roi (whole_image ''sharp.jpg'' 100 100) person_label)
        [(5, 25, 25, 5), (30, 45, 45, 30)] = [5, 30]
   \<and> resolve (face_distance demo_env) COMPARE_FACES_TOLERANCE NAME_THRESHOLD
        demo_gallery demo_count 5 = Inr (Some ''Alice'')
   \<and> resolve (face_distance demo_env) COMPARE_FACES_TOLERANCE NAME_THRESHOLD
        demo_gallery demo_count 30 = Inr (Some ''Bob'')
   \<and> process_label demo_env demo_gallery demo_count (whole_image ''sharp.jpg'' 100 100)
        (initial_state demo_gallery) person_label
       = Inr (\<lparr>name_var = Some (Some ''Bob''), encode_calls = 1\<rparr>,
              person_label\<lparr>label_face := Some (Some ''Bob'')\<rparr>)"
proof -
  let ?img = "whole_image ''sharp.jpg'' 100 100"
  let ?b = "(5, 25, 25, 5) :: face_box" and ?bs = "[(30, 45, 45, 30)] :: face_box list"
  have h1: "label_name person_label = ''person''" by code_simp
  have h2: "roi_size (label_roi ?img person_label) \<noteq> 0" by code_simp
  have h3: "face_locations demo_env (label_roi ?img person_label) = ?b # ?bs" by code_simp
  have h4: "roi_size (face_crop (label_roi ?img person_label) ?b) \<noteq> 0" by code_simp
  have h5: "length (names demo_gallery) = length (encodings demo_gallery)" by code_simp
  have h6: "name_count_of (names demo_gallery) = Inr demo_count" by code_simp
  have h7: "face_encodings demo_env (label_roi ?img person_label) (?b # ?bs) = [5] @ [30]"
    by code_simp
  have fm: "1000 \<le> variance_of_laplacian demo_env (face_crop (label_roi ?img person_label) ?b)"
    by code_simp
  have first: "resolve (face_distance demo_env) COMPARE_FACES_TOLERANCE NAME_THRESHOLD
        demo_gallery demo_count 5 = Inr (Some ''Alice'')" by code_simp
  have last: "resolve (face_distance demo_env) COMPARE_FACES_TOLERANCE NAME_THRESHOLD
        demo_gallery demo_count 30 = Inr (Some ''Bob'')" by code_simp
  have i: "encode_calls (initial_state demo_gallery) = 0" by code_simp
  from last_face_decides [OF h1 h2 h3 h4 h5 h6 h7, of "initial_state demo_gallery"] fm last
  have "process_label demo_env demo_gallery demo_count ?img
        (initial_state demo_gallery) person_label
       = Inr (\<lparr>name_var = Some (Some ''Bob''), encode_calls = 1\<rparr>,
              person_label\<lparr>label_face := Some (Some ''Bob'')\<rparr>)"
    by (simp add: i)
  with h3 h7 first last show ?thesis by simp
qed

section \<open>The classifier's decision\<close>

lemma argmax_from_props:
  assumes "best < i"
  shows "(argmax_from best bv i xs = best \<and> (\<forall>x\<in>set xs. x \<le> bv))
       \<or> (i \<le> argmax_from best bv i xs \<and> argmax_from best bv i xs < i + length xs
           \<and> bv \<le> xs ! (argmax_from best bv i xs - i)
           \<and> (\<forall>x\<in>set xs. x \<le> xs ! (argmax_from best bv i xs - i)))"
  using assms
proof (induction xs arbitrary: best bv i)
  case Nil
  then show ?case by simp
next
  case (Cons x xs)
  show ?case
  proof (cases "bv < x")
    case True
    let ?j = "argmax_from i x (Suc i) xs"
    have step: "argmax_from best bv i (x # xs) = ?j" using True by simp
    from Cons.IH [of i "Suc i" x] consider
      (stay) "?j = i" "\<forall>y\<in>set xs. y \<le> x"
      | (move) "Suc i \<le> ?j" "?j < Suc i + length xs" "x \<le> xs ! (?j - Suc i)"
          "\<forall>y\<in>set xs. y \<le> xs ! (?j - Suc i)"
      by auto
    then show ?thesis
    proof cases
      case stay
      then show ?thesis using True unfolding step by auto
    next
      case move
      then have "(x # xs) ! (?j - i) = xs ! (?j - Suc i)"
        by (simp add: nth_Cons')
      with move True show ?thesis unfolding step by auto
    qed
  next
    case False
    let ?j = "argmax_from best bv (Suc i) xs"
    have step: "argmax_from best bv i (x # xs) = ?j" using False by simp
    have "best < Suc i" using Cons.prems by simp
    from Cons.IH [OF this, of bv] consider
      (stay) "?j = best" "\<forall>y\<in>set xs. y \<le> bv"
      | (move) "Suc i \<le> ?j" "?j < Suc i + length xs" "bv \<le> xs ! (?j - Suc i)"
          "\<forall>y\<in>set xs. y \<le> xs ! (?j - Suc i)"
      by auto
    then show ?thesis
    proof cases
      case stay
      then show ?thesis using False unfolding step by auto
    next
      case move
      then have "(x # xs) ! (?j - i) = xs ! (?j - Suc i)"
        by (simp add: nth_Cons')
      with move False show ?thesis unfolding step by auto
    qed
  qed
qed

lemma argmax_props:
  assumes "ps \<noteq> []"
  shows "\<exists>j. argmax ps = Inr j \<and> j < length ps \<and> ps ! j = Max (set ps)"
proof -
  from assms obtain x r where ps: "ps = x # r" by (cases ps) auto
  let ?j = "argmax_from 0 x 1 r"
  have j: "argmax ps = Inr ?j" by (simp add: ps argmax_def)
  have "?j < length ps \<and> (\<forall>y\<in>set ps. y \<le> ps ! ?j)"
    using argmax_from_props [of 0 1 x r] by (auto simp: ps nth_Cons')
  then have "?j < length ps" "\<forall>y\<in>set ps. y \<le> ps ! ?j" by blast+
  then have "Max (set ps) = ps ! ?j"
    by (intro Max_eqI) auto
  with j \<open>?j < length ps\<close> show ?thesis by simp
qed


text \<open>
  C5: for a person box of the classifier path. When the image is read, the region is
  not empty and the label map covers the probability vector, \<^verbatim>\<open>np.argmax\<close> returns an
  index \<open>j\<close> of the largest probability \<open>p\<close>; the box gets the label at \<open>j\<close> as its
  face when \<open>p\<close> is at least the configured minimum and \<^verbatim>\<open>None\<close> otherwise, and
  \<^verbatim>\<open>faceProba\<close> is \<open>p\<close> in both cases. When the image cannot be read or the region is
  empty, the box gets the face \<^verbatim>\<open>None\<close> and its \<^verbatim>\<open>faceProba\<close> key is not touched, so
  it stays absent.
\<close>

theorem classifier_decision:
  assumes "label_name l = ''person''"
  shows "(cls_imread env path = Some (h, w) \<longrightarrow>
          roi_size (label_roi (whole_image path h w) l) \<noteq> 0 \<longrightarrow>
          predict env (label_roi (whole_image path h w) l) = ps \<longrightarrow>
          ps \<noteq> [] \<longrightarrow> length ps \<le> length (LABEL_MAP cfg) \<longrightarrow>
          (\<exists>j. argmax ps = Inr j \<and> j < length ps \<and> ps ! j = Max (set ps)
             \<and> classify_label env cfg path l
                 = Inr (l\<lparr>label_face :=
                            Some (if MIN_PROBA cfg \<le> Max (set ps)
                                  then Some (LABEL_MAP cfg ! j) else None),
                          label_faceProba := Some (Max (set ps))\<rparr>)))
       \<and> (cls_imread env path = None \<longrightarrow>
            classify_label env cfg path l = Inr (l\<lparr>label_face := Some None\<rparr>))
       \<and> (cls_imread env path = Some (h, w) \<longrightarrow>
            roi_size (label_roi (whole_image path h w) l) = 0 \<longrightarrow>
            classify_label env cfg path l = Inr (l\<lparr>label_face := Some None\<rparr>))"
proof (intro conjI impI)
  assume a: "cls_imread env path = Some (h, w)"
    "roi_size (label_roi (whole_image path h w) l) \<noteq> 0"
    "predict env (label_roi (whole_image path h w) l) = ps"
    "ps \<noteq> []" "length ps \<le> length (LABEL_MAP cfg)"
  from argmax_props [OF a(4)] obtain j where
    j: "argmax ps = Inr j" "j < length ps" "ps ! j = Max (set ps)" by blast
  then have "j < length (LABEL_MAP cfg)" using a(5) by simp
  then have "classify_label env cfg path l
      = Inr (l\<lparr>label_face :=
                  Some (if MIN_PROBA cfg \<le> Max (set ps) then Some (LABEL_MAP cfg ! j) else None),
               label_faceProba := Some (Max (set ps))\<rparr>)"
    using assms a(1,2,3) j by (simp add: classify_label_def Let_def)
  with j show "\<exists>j. argmax ps = Inr j \<and> j < length ps \<and> ps ! j = Max (set ps)
             \<and> classify_label env cfg path l
                 = Inr (l\<lparr>label_face :=
                            Some (if MIN_PROBA cfg \<le> Max (set ps)
                                  then Some (LABEL_MAP cfg ! j) else None),
                          label_faceProba := Some (Max (set ps))\<rparr>)"
    by blast
next
  assume "cls_imread env path = None"
  then show "classify_label env cfg path l = Inr (l\<lparr>label_face := Some None\<rparr>)"
    using assms by (simp add: classify_label_def)
next
  assume "cls_imread env path = Some (h, w)"
    "roi_size (label_roi (whole_image path h w) l) = 0"
  then show "classify_label env cfg path l = Inr (l\<lparr>label_face := Some None\<rparr>)"
    using assms by (simp add: classify_label_def Let_def)
qed


theorem classifier_decision_witness:
  "classify_label demo_classifier demo_config ''sharp.jpg'' person_label
     = Inr (person_label\<lparr>label_face := Some (Some ''Bob''), label_faceProba := Some (9 / 10)\<rparr>)
   \<and> classify_label demo_classifier demo_config ''unsure.jpg'' person_label
     = Inr (person_label\<lparr>label_face := Some None, label_faceProba := Some (42 / 100)\<rparr>)
   \<and> classify_label demo_classifier demo_config ''missing.jpg'' person_label
     = Inr (person_label\<lparr>label_face := Some None\<rparr>)
   \<and> classify_label demo_classifier demo_config ''sharp.jpg'' degenerate_label
     = Inr (degenerate_label\<lparr>label_face := Some None\<rparr>)"
proof -
  let ?sharp = "[5 / 100, 90 / 100, 5 / 100] :: real list"
  let ?unsure = "[42 / 100, 30 / 100, 28 / 100] :: real list"
  have p: "label_name person_label = ''person''" "label_name degenerate_label = ''person''"
    by code_simp+
  have im: "cls_imread demo_classifier ''sharp.jpg'' = Some (100, 100)"
    "cls_imread demo_classifier ''unsure.jpg'' = Some (100, 100)"
    "cls_imread demo_classifier ''missing.jpg'' = None"
    by code_simp+
  have sz: "roi_size (label_roi (whole_image ''sharp.jpg'' 100 100) person_label) \<noteq> 0"
    "roi_size (label_roi (whole_image ''unsure.jpg'' 100 100) person_label) \<noteq> 0"
    "roi_size (label_roi (whole_image ''sharp.jpg'' 100 100) degenerate_label) = 0"
    by code_simp+
  have pr: "predict demo_classifier (label_roi (whole_image ''sharp.jpg'' 100 100) person_label)
              = ?sharp"
    "predict demo_classifier (label_roi (whole_image ''unsure.jpg'' 100 100) person_label)
              = ?unsure"
    by code_simp+
  have len: "length ?sharp \<le> length (LABEL_MAP demo_config)"
    "length ?unsure \<le> length (LABEL_MAP demo_config)"
    by code_simp+
  have am: "argmax ?sharp = Inr 1" "argmax ?unsure = Inr 0" by code_simp+
  have cfg: "MIN_PROBA demo_config = 1 / 2" "LABEL_MAP demo_config ! 1 = ''Bob''"
    by code_simp+
  from classifier_decision [OF p(1), of demo_classifier "''sharp.jpg''" 100 100 ?sharp demo_config]
    im(1) sz(1) pr(1) len(1)
  obtain j where j: "argmax ?sharp = Inr j" "?sharp ! j = Max (set ?sharp)"
    "classify_label demo_classifier demo_config ''sharp.jpg'' person_label
       = Inr (person_label\<lparr>label_face :=
                  Some (if MIN_PROBA demo_config \<le> Max (set ?sharp)
                        then Some (LABEL_MAP demo_config ! j) else None),
               label_faceProba := Some (Max (set ?sharp))\<rparr>)"
    by blast
  from j(1) am(1) have "j = 1" by simp
  with j(2) have "Max (set ?sharp) = 9 / 10" by simp
  with j(3) \<open>j = 1\<close> cfg have a:
    "classify_label demo_classifier demo_config ''sharp.jpg'' person_label
     = Inr (person_label\<lparr>label_face := Some (Some ''Bob''), label_faceProba := Some (9 / 10)\<rparr>)"
    by simp
  from classifier_decision [OF p(1), of demo_classifier "''unsure.jpg''" 100 100 ?unsure demo_config]
    im(2) sz(2) pr(2) len(2)
  obtain k where k: "argmax ?unsure = Inr k" "?unsure ! k = Max (set ?unsure)"
    "classify_label demo_classifier demo_config ''unsure.jpg'' person_label
       = Inr (person_label\<lparr>label_face :=
                  Some (if MIN_PROBA demo_config \<le> Max (set ?unsure)
                        then Some (LABEL_MAP demo_config ! k) else None),
               label_faceProba := Some (Max (set ?unsure))\<rparr>)"
    by blast
  from k(1) am(2) have "k = 0" by simp
  with k(2) have "Max (set ?unsure) = 42 / 100" by simp
  with k(3) cfg have b:
    "classify_label demo_classifier demo_config ''unsure.jpg'' person_label
     = Inr (person_label\<lparr>label_face := Some None, label_faceProba := Some (42 / 100)\<rparr>)"
    by simp
  from classifier_decision [OF p(1), of demo_classifier "''missing.jpg''" _ _ _ demo_config] im(3)
  have c: "classify_label demo_classifier demo_config ''missing.jpg'' person_label
     = Inr (person_label\<lparr>label_face := Some None\<rparr>)"
    by blast
  from classifier_decision [OF p(2), of demo_classifier "''sharp.jpg''" 100 100 _ demo_config]
    im(1) sz(3)
  have d: "classify_label demo_classifier demo_config ''sharp.jpg'' degenerate_label
     = Inr (degenerate_label\<lparr>label_face := Some None\<rparr>)"
    by blast
  from a b c d show ?thesis by blast
qed

section \<open>Unreadable images\<close>

lemma process_image_unreadable:
  "imread env (obj_image obj) = None \<Longrightarrow> process_image env data nc s obj = Inl AttributeError"
  by (simp add: process_image_def)

lemma images_loop_unreadable:
  "\<exists>obj\<in>set objs. imread env (obj_image obj) = None \<Longrightarrow>
   \<exists>e. images_loop env data nc s objs = Inl e"
proof (induction objs arbitrary: s)
  case Nil
  then show ?case by simp
next
  case (Cons obj objs)
  show ?case
  proof (cases "process_image env data nc s obj")
    case (Inl e)
    then show ?thesis by simp
  next
    case (Inr r)
    obtain s' obj' where r: "r = (s', obj')" by (cases r)
    have "imread env (obj_image obj) \<noteq> None"
    proof
      assume "imread env (obj_image obj) = None"
      then have "process_image env data nc s obj = Inl AttributeError"
        by (rule process_image_unreadable)
      with Inr show False by simp
    qed
    with Cons.prems have "\<exists>obj\<in>set objs. imread env (obj_image obj) = None" by auto
    from Cons.IH [OF this, of s'] obtain e where "images_loop env data nc s' objs = Inl e"
      by blast
    with Inr r show ?thesis by simp
  qed
qed

lemma classify_labels_unreadable:
  "cls_imread env path = None \<Longrightarrow>
   classify_labels env cfg path ls =
     Inr (map (\<lambda>l. if label_name l = ''person'' then l\<lparr>label_face := Some None\<rparr> else l) ls)"
  by (induction ls) (simp_all add: classify_label_def)

lemma detect_faces_unreadable:
  "cls_imread env (obj_image obj) = None \<Longrightarrow>
   detect_faces env cfg (obj # objs) =
     (case detect_faces env cfg objs of
        Inl e \<Rightarrow> Inl e
      | Inr rest \<Rightarrow>
          Inr (obj\<lparr>obj_labels :=
                    map (\<lambda>l. if label_name l = ''person'' then l\<lparr>label_face := Some None\<rparr> else l)
                      (obj_labels obj)\<rparr> # rest))"
  by (simp add: classify_labels_unreadable)

text \<open>
  C3 asks both paths to mark every person box of an unreadable image as no decision and
  to go on with the batch. The classifier path does (\<open>detect_faces_unreadable\<close>).
  The embedding path does not test the result of \<^verbatim>\<open>cv2.imread\<close>: on a batch whose first
  image is unreadable the script ends with an exception and prints nothing, while the
  classifier path answers for both images.
\<close>

theorem unreadable_image_ends_face_det_rec:
  "imread demo_env ''missing.jpg'' = None
   \<and> face_det_rec demo_env demo_gallery
        [request ''missing.jpg'' person_label, request ''sharp.jpg'' person_label]
       = Inl AttributeError
   \<and> detect_faces demo_classifier demo_config
        [request ''missing.jpg'' person_label, request ''sharp.jpg'' person_label]
       = Inr [request ''missing.jpg'' (person_label\<lparr>label_face := Some None\<rparr>),
              request ''sharp.jpg''
                (person_label\<lparr>label_face := Some (Some ''Bob''),
                                label_faceProba := Some (9 / 10)\<rparr>)]"
  by code_simp

section \<open>An empty list of embeddings\<close>

lemma process_label_no_encodings:
  assumes "label_name l = ''person''" and "roi_size (label_roi img l) \<noteq> 0"
    and "face_locations env (label_roi img l) = b # bs"
    and "roi_size (face_crop (label_roi img l) b) \<noteq> 0"
    and "1000 \<le> variance_of_laplacian env (face_crop (label_roi img l) b)"
    and "face_encodings env (label_roi img l) (b # bs) = []"
  shows "process_label env data nc img s l =
     (case name_var s of
        None \<Rightarrow> Inl NameError
      | Some v \<Rightarrow>
          Inr (\<lparr>name_var = Some v, encode_calls = encode_calls s + 1\<rparr>,
               l\<lparr>label_face := Some v\<rparr>))"
  using process_label_face [OF assms(1-4), of data nc s] assms(5,6) by simp




section \<open>Boxes outside the image\<close>

lemma slice_index_le: "slice_index n i \<le> n"
  unfolding slice_index_def by (auto simp: nat_le_iff)

lemma py_slice_same: "py_slice n a a = (slice_index n a, slice_index n a)"
  by (simp add: py_slice_def Let_def)

lemma py_slice_beyond: "int n \<le> a \<Longrightarrow> py_slice n a b = (n, n)"
proof -
  assume "int n \<le> a"
  then have "slice_index n a = n" by (simp add: slice_index_def)
  then show ?thesis
    using slice_index_le [of n b] by (simp add: py_slice_def Let_def max_def)
qed

lemma roi_size_crop_empty:
  assumes "a = b \<or> c = d \<or> int (roi_rows r) \<le> a \<or> int (roi_cols r) \<le> c"
  shows "roi_size (crop r a b c d) = 0"
proof -
  obtain ra rb where rows: "py_slice (roi_rows r) a b = (ra, rb)" by (cases "py_slice (roi_rows r) a b")
  obtain ca cb where cols: "py_slice (roi_cols r) c d = (ca, cb)" by (cases "py_slice (roi_cols r) c d")
  have "rb - ra = 0 \<or> cb - ca = 0"
    using assms rows cols py_slice_same py_slice_beyond
    by (metis Pair_inject diff_self_eq_0)
  moreover have "crop r a b c d =
      r\<lparr>roi_top := roi_top r + ra, roi_bottom := roi_top r + rb,
        roi_left := roi_left r + ca, roi_right := roi_left r + cb\<rparr>"
    by (simp add: crop_def rows cols)
  ultimately show ?thesis
    by (auto simp: roi_size_def roi_rows_def roi_cols_def)
qed

lemma empty_box_no_decision:
  assumes "label_name l = ''person''"
    and "xmin (label_box l) = xmax (label_box l) \<or> ymin (label_box l) = ymax (label_box l)
         \<or> int w \<le> xmin (label_box l) \<or> int h \<le> ymin (label_box l)"
  shows "process_label env data nc (whole_image p h w) s l = Inr (s, l\<lparr>label_face := Some None\<rparr>)"
    and "cls_imread cenv p = Some (h, w) \<Longrightarrow>
         classify_label cenv cfg p l = Inr (l\<lparr>label_face := Some None\<rparr>)"
proof -
  have "roi_size (label_roi (whole_image p h w) l) = 0"
    unfolding label_roi_def Let_def
    by (rule roi_size_crop_empty)
       (use assms(2) in \<open>auto simp: whole_image_def roi_rows_def roi_cols_def\<close>)
  then show "process_label env data nc (whole_image p h w) s l
               = Inr (s, l\<lparr>label_face := Some None\<rparr>)"
    and "cls_imread cenv p = Some (h, w) \<Longrightarrow>
         classify_label cenv cfg p l = Inr (l\<lparr>label_face := Some None\<rparr>)"
    using assms(1) by (simp_all add: process_label_def classify_label_def Let_def)
qed

text \<open>
  C7 asks for no decision for every box that lies outside the image or is degenerate.
  That holds for a degenerate box and for a box that starts at or beyond the right or
  the bottom edge (\<open>empty_box_no_decision\<close>). A box with negative coordinates is
  sliced from the far edge instead: in an image of 100 by 100 pixels the box with
  \<open>xmin = -50\<close> and \<open>xmax = -10\<close> selects the columns 50 to 90, and both paths go on to
  name a person.
\<close>

theorem negative_box_wraps_around:
  "label_roi (whole_image ''sharp.jpg'' 100 100) outside_label
     = \<lparr>roi_src = ''sharp.jpg'', roi_top = 10, roi_bottom = 50, roi_left = 50, roi_right = 90\<rparr>
   \<and> detect_faces demo_classifier demo_config [request ''sharp.jpg'' outside_label]
       = Inr [request ''sharp.jpg''
                (outside_label\<lparr>label_face := Some (Some ''Bob''),
                                 label_faceProba := Some (9 / 10)\<rparr>)]
   \<and> face_det_rec demo_env demo_gallery [request ''sharp.jpg'' outside_label]
       = Inr [request ''sharp.jpg'' (outside_label\<lparr>label_face := Some (Some ''Bob'')\<rparr>)]"
  by code_simp

end
